theory Spec2Isabelle
  imports Main
begin

section \<open>Values\<close>

text \<open>
  The scripts work on what \<^verbatim>\<open>json.load\<close> returns: \<^verbatim>\<open>None\<close>, booleans, integers, floats,
  strings, lists and dicts with string keys. A dict is an association list in insertion
  order; Python keeps its keys unique, and \<open>map_of\<close> (the first entry of a key) is the
  lookup. A float carries the text of its literal: no function below computes with it.
  Strings are byte lists, so a Python string is read as its UTF-8 encoding.
\<close>

datatype json =
    JNull
  | JBool bool
  | JInt int
  | JFloat string
  | JString string
  | JArray "json list"
  | JObject "(string \<times> json) list"

text \<open>\<^verbatim>\<open>str.lower()\<close>, on ASCII letters (bytes 65 to 90); other bytes are kept.\<close>

definition lower_char :: "char \<Rightarrow> char" where
  "lower_char c =
     (let n = (of_char c :: nat)
      in if 65 \<le> n \<and> n \<le> 90 then char_of (n + 32) else c)"

definition lower :: "string \<Rightarrow> string" where
  "lower s = map lower_char s"

section \<open>Redaction of hook events\<close>

text \<open>
  Modelled from the spec: the hook logger (\<^verbatim>\<open>.claude/hooks/log-hooks.py\<close>, which
  \<^verbatim>\<open>setup.py\<close> marks executable) is not among the source files. The names below are the
  Sensitive-Key Set as section 3 of the spec lists it; no proof depends on which names
  the list holds.
\<close>

definition SENSITIVE_KEYS :: "string list" where
  "SENSITIVE_KEYS =
     [''token'', ''password'', ''secret'', ''authorization'', ''cookie'', ''session'',
      ''api_key'', ''access_token'', ''refresh_token'', ''key'', ''auth'', ''bearer'',
      ''oauth'', ''jwt'', ''private_key'', ''client_secret'', ''client_id'',
      ''webhook_secret'', ''signing_secret'']"

text \<open>
  Modelled from the spec: the test of the hook logger, which is not among the source
  files, for a sensitive key. The lower-cased exact name of the key is in the set
  (section 3: not substring containment).
\<close>

definition is_sensitive :: "string \<Rightarrow> bool" where
  "is_sensitive k = (lower k \<in> set SENSITIVE_KEYS)"

text \<open>
  Modelled from the spec: the sentinel the hook logger, which is not among the source
  files, puts in the place of a value (section 4.2, step 1).
\<close>

definition REDACTED :: json where
  "REDACTED = JString ''<redacted>''"

text \<open>
  Modelled from the spec: the redaction function of the hook logger, which is not among
  the source files (section 4.2, steps 1 to 3). In a mapping, the value of a sensitive
  key becomes the sentinel and is not visited; any other value is redacted recursively
  and kept under its key. A sequence is redacted element by element. Any other value is
  returned as it is.
\<close>

fun redact :: "json \<Rightarrow> json" where
  "redact (JObject kvs) =
     JObject (map (\<lambda>(k, v). if is_sensitive k then (k, REDACTED) else (k, redact v)) kvs)"
| "redact (JArray xs) = JArray (map redact xs)"
| "redact v = v"

text \<open>
  Addressing a value inside a structure: \<open>Key k\<close> is \<^verbatim>\<open>v[k]\<close> on a dict, \<open>Index i\<close> is
  \<^verbatim>\<open>v[i]\<close> on a list (\<open>i\<close> in range). A step that does not apply gives \<open>None\<close>.
\<close>

datatype step = Key string | Index nat

fun at_path :: "json \<Rightarrow> step list \<Rightarrow> json option" where
  "at_path v [] = Some v"
| "at_path (JObject kvs) (Key k # p) =
     (case map_of kvs k of None \<Rightarrow> None | Some v \<Rightarrow> at_path v p)"
| "at_path (JArray xs) (Index i # p) =
     (if i < length xs then at_path (xs ! i) p else None)"
| "at_path v (s # p) = None"

text \<open>A step that is no sensitive key.\<close>

fun plain_step :: "step \<Rightarrow> bool" where
  "plain_step (Key k) = (\<not> is_sensitive k)"
| "plain_step (Index i) = True"

text \<open>No sensitive key occurs anywhere inside the value.\<close>

fun sensitive_free :: "json \<Rightarrow> bool" where
  "sensitive_free (JObject kvs) =
     list_all (\<lambda>(k, v). \<not> is_sensitive k \<and> sensitive_free v) kvs"
| "sensitive_free (JArray xs) = list_all sensitive_free xs"
| "sensitive_free v = True"

section \<open>The configuration validators of \<^verbatim>\<open>validate-config.py\<close>\<close>

text \<open>
  The validators are annotated for dicts, and \<^verbatim>\<open>main\<close> hands them whatever the file
  held. The operators they use are modelled on every value: where Python raises, the
  model returns the exception.
\<close>

datatype py_error = TypeError string | AttributeError string | KeyError string

fun type_name :: "json \<Rightarrow> string" where
  "type_name JNull = ''NoneType''"
| "type_name (JBool b) = ''bool''"
| "type_name (JInt i) = ''int''"
| "type_name (JFloat f) = ''float''"
| "type_name (JString s) = ''str''"
| "type_name (JArray xs) = ''list''"
| "type_name (JObject kvs) = ''dict''"

text \<open>\<^verbatim>\<open>n in h\<close> on two strings: \<open>n\<close> occurs in \<open>h\<close> as a contiguous run.\<close>

fun str_in :: "string \<Rightarrow> string \<Rightarrow> bool" where
  "str_in n [] = (n = [])"
| "str_in n (c # cs) = (take (length n) (c # cs) = n \<or> str_in n cs)"

text \<open>
  \<^verbatim>\<open>k in v\<close> for a string \<open>k\<close>: a key of a dict, an element of a list, a substring of a
  string; on any other value a \<^verbatim>\<open>TypeError\<close>.
\<close>

fun py_contains :: "json \<Rightarrow> string \<Rightarrow> py_error + bool" where
  "py_contains (JObject kvs) k = Inr (map_of kvs k \<noteq> None)"
| "py_contains (JArray xs) k = Inr (JString k \<in> set xs)"
| "py_contains (JString s) k = Inr (str_in k s)"
| "py_contains v k =
     Inl (TypeError (''argument of type '' @ type_name v @ '' is not iterable''))"

text \<open>\<^verbatim>\<open>v[k]\<close> for a string \<open>k\<close>.\<close>

fun py_getitem :: "json \<Rightarrow> string \<Rightarrow> py_error + json" where
  "py_getitem (JObject kvs) k =
     (case map_of kvs k of None \<Rightarrow> Inl (KeyError k) | Some v \<Rightarrow> Inr v)"
| "py_getitem (JArray xs) k =
     Inl (TypeError ''list indices must be integers or slices, not str'')"
| "py_getitem (JString s) k = Inl (TypeError ''string indices must be integers'')"
| "py_getitem v k = Inl (TypeError (type_name v @ '' object is not subscriptable''))"

text \<open>\<^verbatim>\<open>d.get(k)\<close>: the value, or \<^verbatim>\<open>None\<close> when the key is absent.\<close>

definition dict_get :: "(string \<times> json) list \<Rightarrow> string \<Rightarrow> json" where
  "dict_get d k = (case map_of d k of None \<Rightarrow> JNull | Some v \<Rightarrow> v)"

text \<open>Lists and dicts have no hash; every other value has one.\<close>

fun hashable :: "json \<Rightarrow> bool" where
  "hashable (JArray xs) = False"
| "hashable (JObject kvs) = False"
| "hashable v = True"

text \<open>\<^verbatim>\<open>isinstance(v, dict)\<close>.\<close>

fun is_dict :: "json \<Rightarrow> bool" where
  "is_dict (JObject kvs) = True"
| "is_dict v = False"

text \<open>
  An issue is one of the messages the validators append, with the values its f-string
  interpolates; the rendering of the text is not modelled. The unknown keys are a set,
  as in the source, whose \<^verbatim>\<open>join\<close> lists them in no specified order.
\<close>

datatype issue =
    MissingMcpServers
  | McpServersNotObject
  | ServerConfigNotObject string
  | ServerMissingType string
  | ServerInvalidType string json
  | ServerMissingCommand string
  | ServerMissingUrl string json
  | EnvPlaceholder string string string
  | HeaderPlaceholder string string string
  | UnknownKeys "string set"
  | UnknownModel json
  | StatusLineMissingType
  | StatusLineMissingCommand

text \<open>
  The test on a value of \<^verbatim>\<open>env\<close> or \<^verbatim>\<open>headers\<close>: a string whose lower-cased form
  contains \<^verbatim>\<open>get-this-from\<close> or \<^verbatim>\<open>your_\<close>.
\<close>

fun placeholder_value :: "json \<Rightarrow> string option" where
  "placeholder_value (JString s) =
     (if str_in ''get-this-from'' (lower s) \<or> str_in ''your_'' (lower s) then Some s else None)"
| "placeholder_value v = None"

text \<open>The inner loops over \<^verbatim>\<open>env\<close> and \<^verbatim>\<open>headers\<close>, which run only on a dict.\<close>

definition placeholder_entries :: "json \<Rightarrow> (string \<times> string) list" where
  "placeholder_entries v =
     (case v of
        JObject entries \<Rightarrow>
          concat (map (\<lambda>(key, val).
            case placeholder_value val of Some s \<Rightarrow> [(key, s)] | None \<Rightarrow> []) entries)
      | _ \<Rightarrow> [])"

text \<open>The body of the loop over the servers: the issues of one server.\<close>

definition server_issues :: "string \<Rightarrow> json \<Rightarrow> issue list" where
  "server_issues server_name config =
     (case config of
        JObject c \<Rightarrow>
          (case map_of c ''type'' of
             None \<Rightarrow> [ServerMissingType server_name]
           | Some t \<Rightarrow>
               if t \<notin> set [JString ''stdio'', JString ''sse'', JString ''http'']
               then [ServerInvalidType server_name t] else [])
          @ (if dict_get c ''type'' = JString ''stdio'' then
               (if map_of c ''command'' = None then [ServerMissingCommand server_name] else [])
             else if dict_get c ''type'' \<in> set [JString ''sse'', JString ''http''] then
               (if map_of c ''url'' = None
                then [ServerMissingUrl server_name (dict_get c ''type'')] else [])
             else [])
          @ (case map_of c ''env'' of
               None \<Rightarrow> []
             | Some env \<Rightarrow>
                 map (\<lambda>(key, s). EnvPlaceholder server_name key s) (placeholder_entries env))
          @ (case map_of c ''headers'' of
               None \<Rightarrow> []
             | Some headers \<Rightarrow>
                 map (\<lambda>(key, s). HeaderPlaceholder server_name key s)
                   (placeholder_entries headers))
      | _ \<Rightarrow> [ServerConfigNotObject server_name])"

definition validate_mcp_config :: "json \<Rightarrow> py_error + issue list" where
  "validate_mcp_config data =
     (case py_contains data ''mcpServers'' of
        Inl e \<Rightarrow> Inl e
      | Inr False \<Rightarrow> Inr [MissingMcpServers]
      | Inr True \<Rightarrow>
          (case py_getitem data ''mcpServers'' of
             Inl e \<Rightarrow> Inl e
           | Inr servers \<Rightarrow>
               (case servers of
                  JObject entries \<Rightarrow>
                    Inr (concat (map (\<lambda>(server_name, config).
                      server_issues server_name config) entries))
                | _ \<Rightarrow> Inr [McpServersNotObject])))"

definition valid_keys :: "string set" where
  "valid_keys = {''model'', ''statusLine'', ''hooks'', ''outputStyle'', ''memory''}"

definition valid_models :: "string set" where
  "valid_models =
     {''sonnet'', ''haiku'', ''opus'', ''claude-3-5-sonnet-20241022'',
      ''claude-3-5-haiku-20241022''}"

text \<open>
  \<^verbatim>\<open>data.keys()\<close> exists on a dict only. \<^verbatim>\<open>valid_models\<close> is a set, so the membership
  test hashes \<^verbatim>\<open>data["model"]\<close> and raises on a list or a dict; the issues appended
  before are lost with the exception.
\<close>

definition validate_claude_settings :: "json \<Rightarrow> py_error + issue list" where
  "validate_claude_settings data =
     (case data of
        JObject d \<Rightarrow>
          (let unknown_keys = set (map fst d) - valid_keys;
               issues = (if unknown_keys \<noteq> {} then [UnknownKeys unknown_keys] else [])
           in case (case map_of d ''model'' of
                      None \<Rightarrow> Inr []
                    | Some m \<Rightarrow>
                        if \<not> hashable m then Inl (TypeError (''unhashable type: '' @ type_name m))
                        else if m \<notin> JString ` valid_models then Inr [UnknownModel m]
                        else Inr [])
              of
                Inl e \<Rightarrow> Inl e
              | Inr model_issues \<Rightarrow>
                  Inr (issues @ model_issues @
                    (case map_of d ''statusLine'' of
                       Some (JObject status_config) \<Rightarrow>
                         (case map_of status_config ''type'' of
                            None \<Rightarrow> [StatusLineMissingType]
                          | Some t \<Rightarrow>
                              if t = JString ''command'' \<and> map_of status_config ''command'' = None
                              then [StatusLineMissingCommand] else [])
                     | _ \<Rightarrow> [])))
      | _ \<Rightarrow> Inl (AttributeError (type_name data @ '' object has no attribute keys'')))"

section \<open>Reading JSON: \<^verbatim>\<open>json.load\<close>\<close>

text \<open>
  \<^verbatim>\<open>validate_json_file\<close> reads the file through Python's \<^verbatim>\<open>json\<close> module. The functions
  of this section follow the scanner CPython runs (\<^verbatim>\<open>scan_once\<close>, \<^verbatim>\<open>scanstring\<close> and
  the object and array parsers of the \<^verbatim>\<open>_json\<close> module, up to Python 3.12) on the
  remaining input instead of an index into it. An error holds its message and the
  length of the input that remained where it was raised; \<open>Recursion\<close> is the
  \<^verbatim>\<open>RecursionError\<close> of a nesting deeper than the interpreter allows.
\<close>

datatype scan_error = Decode string nat | Recursion string

definition is_ws :: "char \<Rightarrow> bool" where
  "is_ws c = (c = CHR '' '' \<or> c = CHR 0x09 \<or> c = CHR 0x0A \<or> c = CHR 0x0D)"

definition skip_ws :: "string \<Rightarrow> string" where
  "skip_ws s = dropWhile is_ws s"

definition is_digit :: "char \<Rightarrow> bool" where
  "is_digit c = (48 \<le> (of_char c :: nat) \<and> (of_char c :: nat) \<le> 57)"

definition digit_val :: "char \<Rightarrow> nat" where
  "digit_val c = of_char c - 48"

definition hex_val :: "char \<Rightarrow> nat option" where
  "hex_val c =
     (let n = (of_char c :: nat)
      in if 48 \<le> n \<and> n \<le> 57 then Some (n - 48)
         else if 97 \<le> n \<and> n \<le> 102 then Some (n - 87)
         else if 65 \<le> n \<and> n \<le> 70 then Some (n - 55)
         else None)"

fun hex4 :: "string \<Rightarrow> nat option" where
  "hex4 [a, b, c, d] =
     (case (hex_val a, hex_val b, hex_val c, hex_val d) of
        (Some x, Some y, Some z, Some w) \<Rightarrow> Some (((x * 16 + y) * 16 + z) * 16 + w)
      | _ \<Rightarrow> None)"
| "hex4 s = None"

text \<open>The bytes of a code point in UTF-8 (a lone surrogate takes three bytes).\<close>

definition utf8 :: "nat \<Rightarrow> string" where
  "utf8 n =
     (if n < 0x80 then [char_of n]
      else if n < 0x800 then [char_of (0xC0 + n div 64), char_of (0x80 + n mod 64)]
      else if n < 0x10000 then
        [char_of (0xE0 + n div 4096), char_of (0x80 + n div 64 mod 64), char_of (0x80 + n mod 64)]
      else
        [char_of (0xF0 + n div 262144), char_of (0x80 + n div 4096 mod 64),
         char_of (0x80 + n div 64 mod 64), char_of (0x80 + n mod 64)])"

text \<open>The escapes of one character after a backslash.\<close>

definition backslash :: "char \<Rightarrow> char option" where
  "backslash e =
     (if e = CHR 0x22 \<or> e = CHR 0x5C \<or> e = CHR ''/'' then Some e
      else if e = CHR ''b'' then Some (CHR 0x08)
      else if e = CHR ''f'' then Some (CHR 0x0C)
      else if e = CHR ''n'' then Some (CHR 0x0A)
      else if e = CHR ''r'' then Some (CHR 0x0D)
      else if e = CHR ''t'' then Some (CHR 0x09)
      else None)"

text \<open>
  \<^verbatim>\<open>scanstring\<close>, after the opening quote: \<open>begin\<close> is the input that remained at that
  quote, \<open>acc\<close> the characters read so far, last first. A \<^verbatim>\<open>\uXXXX\<close> escape needs one more
  character after its four digits; a high surrogate followed by the escape of a low one
  is joined with it.
\<close>

fun scanstring :: "nat \<Rightarrow> string \<Rightarrow> string \<Rightarrow> scan_error + (string \<times> string)" where
  "scanstring begin acc [] = Inl (Decode ''Unterminated string starting at'' begin)"
| "scanstring begin acc (c # cs) =
     (if c = CHR 0x22 then Inr (rev acc, cs)
      else if c = CHR 0x5C then
        (case cs of
           [] \<Rightarrow> Inl (Decode ''Unterminated string starting at'' begin)
         | e # r \<Rightarrow>
             if e \<noteq> CHR ''u'' then
               (case backslash e of
                  None \<Rightarrow> Inl (Decode (''Invalid '' @ [CHR 0x5C] @ ''escape'') (Suc (length cs)))
                | Some ch \<Rightarrow> scanstring begin (ch # acc) r)
             else if length r < 5 then
               Inl (Decode (''Invalid '' @ [CHR 0x5C] @ ''uXXXX escape'') (length cs))
             else
               (case hex4 (take 4 r) of
                  None \<Rightarrow> Inl (Decode (''Invalid '' @ [CHR 0x5C] @ ''uXXXX escape'') (length cs))
                | Some u \<Rightarrow>
                    let r4 = drop 4 r in
                    if 0xD800 \<le> u \<and> u \<le> 0xDBFF \<and> 6 < length r4 \<and>
                       take 2 r4 = [CHR 0x5C, CHR ''u'']
                    then
                      (case hex4 (take 4 (drop 2 r4)) of
                         None \<Rightarrow>
                           Inl (Decode (''Invalid '' @ [CHR 0x5C] @ ''uXXXX escape'') (length r4 - 1))
                       | Some u2 \<Rightarrow>
                           if 0xDC00 \<le> u2 \<and> u2 \<le> 0xDFFF then
                             scanstring begin
                               (rev (utf8 (0x10000 + (u - 0xD800) * 1024 + (u2 - 0xDC00))) @ acc)
                               (drop 6 r4)
                           else scanstring begin (rev (utf8 u) @ acc) r4)
                    else scanstring begin (rev (utf8 u) @ acc) r4))
      else if (of_char c :: nat) \<le> 0x1F then
        Inl (Decode ''Invalid control character at'' (Suc (length cs)))
      else scanstring begin (c # acc) cs)"

text \<open>
  The number at the start of the input, in the steps of the scanner: an optional
  minus; \<^verbatim>\<open>0\<close>, or digits that do not start with \<^verbatim>\<open>0\<close>; a fraction, when a digit
  follows the point; an exponent, when a digit follows the \<^verbatim>\<open>e\<close> and its optional
  sign. Each step returns what it matched and the rest of the input.
\<close>

definition scan_sign :: "string \<Rightarrow> string \<times> string" where
  "scan_sign s =
     (case s of
        c # cs \<Rightarrow> if c = CHR ''-'' then ([c], cs) else ([], s)
      | [] \<Rightarrow> ([], s))"

definition scan_int :: "string \<Rightarrow> (string \<times> string) option" where
  "scan_int s =
     (case s of
        [] \<Rightarrow> None
      | c # cs \<Rightarrow>
          if \<not> is_digit c then None
          else if c = CHR ''0'' then Some ([c], cs)
          else Some (c # takeWhile is_digit cs, dropWhile is_digit cs))"

definition scan_frac :: "string \<Rightarrow> string \<times> string" where
  "scan_frac s =
     (case s of
        p # d # r \<Rightarrow>
          if p = CHR ''.'' \<and> is_digit d
          then (p # d # takeWhile is_digit r, dropWhile is_digit r)
          else ([], s)
      | _ \<Rightarrow> ([], s))"

definition scan_exp :: "string \<Rightarrow> string \<times> string" where
  "scan_exp s =
     (case s of
        e # r \<Rightarrow>
          if e = CHR ''e'' \<or> e = CHR ''E'' then
            (case (case r of
                     g # r' \<Rightarrow> if g = CHR ''-'' \<or> g = CHR ''+'' then ([g], r') else ([], r)
                   | [] \<Rightarrow> ([], r))
             of (sg, r1) \<Rightarrow>
               (case r1 of
                  d # r2 \<Rightarrow>
                    if is_digit d
                    then (e # sg @ d # takeWhile is_digit r2, dropWhile is_digit r2)
                    else ([], s)
                | [] \<Rightarrow> ([], s)))
          else ([], s)
      | [] \<Rightarrow> ([], s))"

text \<open>
  With neither fraction nor exponent the number is an integer, otherwise a float.
\<close>

definition match_number :: "string \<Rightarrow> (json \<times> string) option" where
  "match_number s =
     (case scan_sign s of (sign, s1) \<Rightarrow>
        (case scan_int s1 of
           None \<Rightarrow> None
         | Some (ds, s2) \<Rightarrow>
             (case scan_frac s2 of (frac, s3) \<Rightarrow>
                (case scan_exp s3 of (ex, s4) \<Rightarrow>
                   if frac = [] \<and> ex = [] then
                     Some (JInt ((if sign = [] then 1 else - 1) *
                                 int (foldl (\<lambda>a d. 10 * a + digit_val d) 0 ds)), s4)
                   else Some (JFloat (sign @ ds @ frac @ ex), s4)))))"

text \<open>\<^verbatim>\<open>d[k] = v\<close>: a key that is there keeps its place.\<close>

fun dict_set :: "(string \<times> json) list \<Rightarrow> string \<Rightarrow> json \<Rightarrow> (string \<times> json) list" where
  "dict_set [] k v = [(k, v)]"
| "dict_set ((k', v') # d) k v = (if k' = k then (k, v) # d else (k', v') # dict_set d k v)"

text \<open>\<^verbatim>\<open>StopIteration\<close> in the scanner, which the decoder reports as this error.\<close>

definition expecting_value :: "string \<Rightarrow> scan_error" where
  "expecting_value s = Decode ''Expecting value'' (length s)"

text \<open>
  \<open>scan_once depth s\<close> reads one value at the start of \<open>s\<close> and returns it with the rest
  of the input; \<open>depth\<close> is the number of nested objects and arrays the interpreter
  still allows, tested where an object or an array is entered. \<open>parse_object\<close> and
  \<open>parse_array\<close> are the loops of the two parsers, entered where a key or an element is
  expected, with the pairs or elements read so far; they read their values with one
  level less. Each round of a loop goes on with a shorter input; the test on the lengths
  before the recursive call states this for the termination proof, and
  \<open>parse_object_progress\<close> and \<open>parse_array_progress\<close> below show that it holds
  whenever it is reached.
\<close>

fun scan_once :: "nat \<Rightarrow> string \<Rightarrow> scan_error + (json \<times> string)"
  and parse_object :: "nat \<Rightarrow> (string \<times> json) list \<Rightarrow> string \<Rightarrow> scan_error + (json \<times> string)"
  and parse_array :: "nat \<Rightarrow> json list \<Rightarrow> string \<Rightarrow> scan_error + (json \<times> string)"
where
  "scan_once depth s =
     (case s of
        [] \<Rightarrow> Inl (expecting_value s)
      | c # cs \<Rightarrow>
          if c = CHR 0x22 then
            (case scanstring (length s) [] cs of
               Inl e \<Rightarrow> Inl e
             | Inr (str, rest) \<Rightarrow> Inr (JString str, rest))
          else if c = CHR ''{'' then
            (if depth = 0 then Inl (Recursion ''object'')
             else
               case skip_ws cs of
                 [] \<Rightarrow> parse_object depth [] []
               | c1 # r1 \<Rightarrow>
                   if c1 = CHR ''}'' then Inr (JObject [], r1)
                   else parse_object depth [] (c1 # r1))
          else if c = CHR ''['' then
            (if depth = 0 then Inl (Recursion ''array'')
             else
               case skip_ws cs of
                 [] \<Rightarrow> parse_array depth [] []
               | c1 # r1 \<Rightarrow>
                   if c1 = CHR '']'' then Inr (JArray [], r1)
                   else parse_array depth [] (c1 # r1))
          else if take 4 s = ''null'' then Inr (JNull, drop 4 s)
          else if take 4 s = ''true'' then Inr (JBool True, drop 4 s)
          else if take 5 s = ''false'' then Inr (JBool False, drop 5 s)
          else if take 3 s = ''NaN'' then Inr (JFloat ''NaN'', drop 3 s)
          else if take 8 s = ''Infinity'' then Inr (JFloat ''Infinity'', drop 8 s)
          else if take 9 s = ''-Infinity'' then Inr (JFloat ''-Infinity'', drop 9 s)
          else
            (case match_number s of
               None \<Rightarrow> Inl (expecting_value s)
             | Some r \<Rightarrow> Inr r))"
| "parse_object 0 pairs s = Inl (Recursion ''object'')"
| "parse_object (Suc depth) pairs s =
     (case s of
        [] \<Rightarrow> Inl (Decode ''Expecting property name enclosed in double quotes'' 0)
      | c # cs \<Rightarrow>
          if c \<noteq> CHR 0x22 then
            Inl (Decode ''Expecting property name enclosed in double quotes'' (length s))
          else
            (case scanstring (length s) [] cs of
               Inl e \<Rightarrow> Inl e
             | Inr (key, s1) \<Rightarrow>
                 (case skip_ws s1 of
                    [] \<Rightarrow> Inl (Decode ''Expecting ':' delimiter'' 0)
                  | c2 # s3 \<Rightarrow>
                      if c2 \<noteq> CHR '':'' then
                        Inl (Decode ''Expecting ':' delimiter'' (Suc (length s3)))
                      else
                        (case scan_once depth (skip_ws s3) of
                           Inl e \<Rightarrow> Inl e
                         | Inr (val, s5) \<Rightarrow>
                             (case skip_ws s5 of
                                [] \<Rightarrow> Inl (Decode ''Expecting ',' delimiter'' 0)
                              | c6 # s7 \<Rightarrow>
                                  if c6 = CHR ''}'' then
                                    Inr (JObject (dict_set pairs key val), s7)
                                  else if c6 \<noteq> CHR '','' then
                                    Inl (Decode ''Expecting ',' delimiter'' (Suc (length s7)))
                                  else if length (skip_ws s7) < length s then
                                    parse_object (Suc depth) (dict_set pairs key val) (skip_ws s7)
                                  else Inl (Decode ''no progress'' 0))))))"
| "parse_array 0 acc s = Inl (Recursion ''array'')"
| "parse_array (Suc depth) acc s =
     (case scan_once depth s of
        Inl e \<Rightarrow> Inl e
      | Inr (val, s1) \<Rightarrow>
          (case skip_ws s1 of
             [] \<Rightarrow> Inl (Decode ''Expecting ',' delimiter'' 0)
           | c # s2 \<Rightarrow>
               if c = CHR '']'' then Inr (JArray (acc @ [val]), s2)
               else if c \<noteq> CHR '','' then
                 Inl (Decode ''Expecting ',' delimiter'' (Suc (length s2)))
               else if length (skip_ws s2) < length s then
                 parse_array (Suc depth) (acc @ [val]) (skip_ws s2)
               else Inl (Decode ''no progress'' 0)))"

declare scan_once.simps [simp del]

text \<open>Decimal digits of a number, for the text of an error.\<close>

fun show_nat :: "nat \<Rightarrow> string" where
  "show_nat n =
     (if n < 10 then [''0123456789'' ! n]
      else show_nat (n div 10) @ [''0123456789'' ! (n mod 10)])"

declare show_nat.simps [simp del]

text \<open>
  \<^verbatim>\<open>str(JSONDecodeError(msg, doc, pos))\<close>: the message with the line, the column and
  the position, which the model counts in bytes.
\<close>

definition decode_error :: "string \<Rightarrow> string \<Rightarrow> nat \<Rightarrow> string" where
  "decode_error msg doc pos =
     msg @ '': line '' @ show_nat (count_list (take pos doc) (CHR 0x0A) + 1)
       @ '' column '' @ show_nat (length (takeWhile (\<lambda>c. c \<noteq> CHR 0x0A) (rev (take pos doc))) + 1)
       @ '' (char '' @ show_nat pos @ '')''"

text \<open>What \<^verbatim>\<open>json.loads\<close> raises, with the text of the exception.\<close>

datatype json_error = JSONDecodeError string | RecursionError string

text \<open>
  \<^verbatim>\<open>json.loads\<close>: refuses a byte order mark, skips white space, reads one value and
  accepts only white space after it.
\<close>

definition json_loads :: "nat \<Rightarrow> string \<Rightarrow> json_error + json" where
  "json_loads limit s =
     (if take 3 s = [CHR 0xEF, CHR 0xBB, CHR 0xBF] then
        Inl (JSONDecodeError (decode_error ''Unexpected UTF-8 BOM (decode using utf-8-sig)'' s 0))
      else
        case scan_once limit (skip_ws s) of
          Inl (Decode msg remaining) \<Rightarrow>
            Inl (JSONDecodeError (decode_error msg s (length s - remaining)))
        | Inl (Recursion what) \<Rightarrow>
            Inl (RecursionError (''maximum recursion depth exceeded while decoding a JSON ''
              @ what @ '' from a unicode string''))
        | Inr (obj, rest) \<Rightarrow>
            if skip_ws rest \<noteq> [] then
              Inl (JSONDecodeError (decode_error ''Extra data'' s (length s - length (skip_ws rest))))
            else Inr obj)"

section \<open>\<^verbatim>\<open>validate_json_file\<close> and \<^verbatim>\<open>main\<close> of \<^verbatim>\<open>validate-config.py\<close>\<close>

text \<open>
  What the script finds: for a file that can be opened, its text, or the text of the
  exception that opening or reading it raises (\<^verbatim>\<open>PermissionError\<close>,
  \<^verbatim>\<open>IsADirectoryError\<close>, \<^verbatim>\<open>UnicodeDecodeError\<close>); a file that is not listed does not
  exist. Paths are relative to \<^verbatim>\<open>repo_root\<close>. \<open>existing\<close> lists the paths for which
  \<^verbatim>\<open>Path.exists()\<close> holds, and \<open>recursion_limit\<close> is the nesting the interpreter allows
  the JSON scanner.
\<close>

datatype file_state = Unreadable string | Content string

record world =
  files :: "(string \<times> file_state) list"
  existing :: "string list"
  recursion_limit :: nat

definition validate_json_file :: "world \<Rightarrow> string \<Rightarrow> (string \<times> json) list" where
  "validate_json_file w file_path =
     (case map_of (files w) file_path of
        None \<Rightarrow> [(''valid'', JBool False), (''error'', JString ''File not found'')]
      | Some (Unreadable e) \<Rightarrow>
          [(''valid'', JBool False), (''error'', JString (''Unexpected error: '' @ e))]
      | Some (Content s) \<Rightarrow>
          (case json_loads (recursion_limit w) s of
             Inr data \<Rightarrow> [(''valid'', JBool True), (''data'', data)]
           | Inl (JSONDecodeError e) \<Rightarrow>
               [(''valid'', JBool False), (''error'', JString (''JSON parse error: '' @ e))]
           | Inl (RecursionError e) \<Rightarrow>
               [(''valid'', JBool False), (''error'', JString (''Unexpected error: '' @ e))]))"

text \<open>
  What \<^verbatim>\<open>main\<close> prints: a line of text (without the emoji it starts with), the
  bullet of an issue, or the traceback of an exception nothing catches.
\<close>

datatype report = Say string | Bullet issue | Traceback py_error

text \<open>
  The block \<^verbatim>\<open>main\<close> runs for each of the two files: the lines it prints and whether
  it sets \<^verbatim>\<open>issues_found\<close>, or the exception of the validator.
\<close>

definition report_file ::
  "string \<Rightarrow> (json \<Rightarrow> py_error + issue list) \<Rightarrow> (string \<times> json) list
     \<Rightarrow> py_error + (report list \<times> bool)" where
  "report_file name validate result =
     (if map_of result ''valid'' \<noteq> Some (JBool True) then
        Inr ([Say (name @ '': '' @ (case dict_get result ''error'' of JString e \<Rightarrow> e | _ \<Rightarrow> []))],
             True)
      else
        case validate (dict_get result ''data'') of
          Inl e \<Rightarrow> Inl e
        | Inr issues \<Rightarrow>
            if issues \<noteq> [] then Inr (Say (name @ '' issues found:'') # map Bullet issues, True)
            else Inr ([Say (name @ '' is valid'')], False))"



section \<open>The directory structure of \<^verbatim>\<open>setup.py\<close>\<close>

text \<open>
  The file system below \<^verbatim>\<open>repo_root\<close> is a tree: a node is a regular file or a
  directory with named entries. A path is the list of its components, so
  \<^verbatim>\<open>.claude/hooks/logs\<close> is \<open>[''.claude'', ''hooks'', ''logs'']\<close>. Permissions, links and
  full disks are not modelled: the errors are those the shape of the tree gives.
\<close>

type_synonym path = "string list"

datatype node = File | Dir "(string \<times> node) list"

datatype os_error = FileNotFoundError | NotADirectoryError | FileExistsError

text \<open>\<^verbatim>\<open>os.stat\<close>: walks the path from the root.\<close>

fun stat :: "node \<Rightarrow> path \<Rightarrow> os_error + node" where
  "stat n [] = Inr n"
| "stat File (c # cs) = Inl NotADirectoryError"
| "stat (Dir entries) (c # cs) =
     (case map_of entries c of
        None \<Rightarrow> Inl FileNotFoundError
      | Some n \<Rightarrow> stat n cs)"

text \<open>\<^verbatim>\<open>Path.exists()\<close> and \<^verbatim>\<open>Path.is_dir()\<close>: a failing \<^verbatim>\<open>stat\<close> is \<^verbatim>\<open>False\<close>.\<close>

definition path_exists :: "node \<Rightarrow> path \<Rightarrow> bool" where
  "path_exists fs p = (case stat fs p of Inr n \<Rightarrow> True | Inl e \<Rightarrow> False)"

definition is_dir :: "node \<Rightarrow> path \<Rightarrow> bool" where
  "is_dir fs p = (case stat fs p of Inr (Dir entries) \<Rightarrow> True | _ \<Rightarrow> False)"

definition set_entry :: "(string \<times> node) list \<Rightarrow> string \<Rightarrow> node \<Rightarrow> (string \<times> node) list" where
  "set_entry entries c n = map (\<lambda>(k, v). if k = c then (k, n) else (k, v)) entries"

text \<open>
  \<^verbatim>\<open>os.mkdir\<close>: creates one empty directory. The parent must be a directory
  (\<^verbatim>\<open>ENOENT\<close> when a component is missing, \<^verbatim>\<open>ENOTDIR\<close> when one is a file) and the name
  must be free (\<^verbatim>\<open>EEXIST\<close>).
\<close>

fun os_mkdir :: "node \<Rightarrow> path \<Rightarrow> os_error + node" where
  "os_mkdir n [] = Inl FileExistsError"
| "os_mkdir File (c # cs) = Inl NotADirectoryError"
| "os_mkdir (Dir entries) (c # cs) =
     (case map_of entries c of
        None \<Rightarrow> if cs = [] then Inr (Dir (entries @ [(c, Dir [])])) else Inl FileNotFoundError
      | Some n \<Rightarrow>
          (case os_mkdir n cs of
             Inl e \<Rightarrow> Inl e
           | Inr n' \<Rightarrow> Inr (Dir (set_entry entries c n'))))"

text \<open>
  \<^verbatim>\<open>Path.mkdir(parents=False, exist_ok=True)\<close>, the second call of pathlib's
  \<^verbatim>\<open>mkdir\<close>: a missing parent is raised; any other error is dropped when the path is a
  directory. The result is the file system and the exception, if one is raised.
\<close>

definition mkdir_exist_ok :: "node \<Rightarrow> path \<Rightarrow> node \<times> os_error option" where
  "mkdir_exist_ok fs p =
     (case os_mkdir fs p of
        Inr fs' \<Rightarrow> (fs', None)
      | Inl FileNotFoundError \<Rightarrow> (fs, Some FileNotFoundError)
      | Inl e \<Rightarrow> if is_dir fs p then (fs, None) else (fs, Some e))"

text \<open>
  \<^verbatim>\<open>Path.mkdir(parents=True, exist_ok=True)\<close>: on a missing parent it makes the
  parent the same way and then the directory itself. The parent of the root is the
  root, where pathlib raises.
\<close>

function path_mkdir :: "node \<Rightarrow> path \<Rightarrow> node \<times> os_error option" where
  "path_mkdir fs p =
     (case os_mkdir fs p of
        Inr fs' \<Rightarrow> (fs', None)
      | Inl FileNotFoundError \<Rightarrow>
          if p = [] then (fs, Some FileNotFoundError)
          else
            (case path_mkdir fs (butlast p) of
               (fs1, Some e) \<Rightarrow> (fs1, Some e)
             | (fs1, None) \<Rightarrow> mkdir_exist_ok fs1 p)
      | Inl e \<Rightarrow> if is_dir fs p then (fs, None) else (fs, Some e))"
  by pat_completeness auto
termination
  by (relation "measure (\<lambda>(fs, p). length p)") auto

declare path_mkdir.simps [simp del]

text \<open>The lines \<^verbatim>\<open>create_directory_structure\<close> prints.\<close>

datatype line = Creating | AlreadyExists path | Created path | Blank

definition directories :: "path list" where
  "directories =
     [[''.claude'', ''hooks'', ''logs''],
      [''.claude'', ''cache''],
      [''.claude'', ''tmp''],
      [''.claude'', ''agents''],
      [''.claude'', ''commands'']]"

text \<open>
  The loop over the directories, with the file system and the printed lines as state.
  An exception of \<^verbatim>\<open>mkdir\<close> ends it: \<^verbatim>\<open>create_directory_structure\<close> has no handler.
\<close>

fun create_dirs :: "path list \<Rightarrow> node \<Rightarrow> line list \<Rightarrow> node \<times> line list \<times> os_error option" where
  "create_dirs [] fs out = (fs, out, None)"
| "create_dirs (dir_path # rest) fs out =
     (if path_exists fs dir_path then create_dirs rest fs (out @ [AlreadyExists dir_path])
      else
        (case path_mkdir fs dir_path of
           (fs1, Some e) \<Rightarrow> (fs1, out, Some e)
         | (fs1, None) \<Rightarrow> create_dirs rest fs1 (out @ [Created dir_path])))"

definition create_directory_structure :: "node \<Rightarrow> node \<times> line list \<times> os_error option" where
  "create_directory_structure fs =
     (case create_dirs directories fs [Creating] of
        (fs', out, None) \<Rightarrow> (fs', out @ [Blank], None)
      | (fs', out, Some e) \<Rightarrow> (fs', out, Some e))"

text \<open>
  For the proofs: what a path is in a file system, and the relation of a file system
  to a later one in which every path is what it was or is a new directory.
\<close>

datatype kind = Regular | Directory

fun kind_of :: "node \<Rightarrow> kind" where
  "kind_of File = Regular"
| "kind_of (Dir entries) = Directory"

definition kind_at :: "node \<Rightarrow> path \<Rightarrow> kind option" where
  "kind_at fs p = (case stat fs p of Inl e \<Rightarrow> None | Inr n \<Rightarrow> Some (kind_of n))"

definition grows :: "node \<Rightarrow> node \<Rightarrow> bool" where
  "grows fs fs' \<longleftrightarrow>
     (\<forall>q. kind_at fs' q = kind_at fs q \<or> (kind_at fs q = None \<and> kind_at fs' q = Some Directory))"

section \<open>Properties of redaction\<close>

lemma map_of_redact_entries:
  "map_of (map (\<lambda>(k, v). if is_sensitive k then (k, REDACTED) else (k, redact v)) kvs) k =
     (case map_of kvs k of None \<Rightarrow> None
      | Some v \<Rightarrow> Some (if is_sensitive k then REDACTED else redact v))"
  by (induction kvs) (auto split: option.splits)

lemma at_path_redact_plain:
  "list_all plain_step p \<Longrightarrow> at_path (redact V) p = map_option redact (at_path V p)"
proof (induction V p rule: at_path.induct)
  case (2 kvs k p)
  then show ?case
    by (auto simp: map_of_redact_entries split: option.splits)
next
  case (3 xs i p)
  then show ?case by auto
qed auto

lemma redact_sensitive_free: "sensitive_free v \<Longrightarrow> redact v = v"
proof (induction v rule: redact.induct)
  case (1 kvs)
  have "map (\<lambda>(k, v). if is_sensitive k then (k, REDACTED) else (k, redact v)) kvs = map id kvs"
    using 1 by (intro map_cong) (auto simp: list_all_iff)
  then show ?case by simp
next
  case (2 xs)
  have "map redact xs = map id xs"
    using 2 by (intro map_cong) (auto simp: list_all_iff)
  then show ?case by simp
qed auto

lemma at_path_snoc_key:
  "at_path V (p @ [Key K]) = Some w \<longleftrightarrow>
     (\<exists>kvs. at_path V p = Some (JObject kvs) \<and> map_of kvs K = Some w)"
proof (induction V p rule: at_path.induct)
  case (1 v)
  then show ?case by (cases v) (auto split: option.splits)
next
  case (2 kvs k p)
  then show ?case by (auto split: option.splits)
qed auto

lemma sensitive_entry_of_redact:
  "at_path (redact V) p = Some (JObject kvs) \<Longrightarrow> map_of kvs K = Some w \<Longrightarrow> is_sensitive K
     \<Longrightarrow> w = REDACTED"
proof (induction V p arbitrary: kvs rule: at_path.induct)
  case (1 v)
  then show ?case
    by (cases v) (auto simp: map_of_redact_entries split: option.splits)
next
  case (2 kvs' k p)
  show ?case
  proof (cases "map_of kvs' k")
    case None
    with 2 show ?thesis by (simp add: map_of_redact_entries)
  next
    case (Some v)
    show ?thesis
    proof (cases "is_sensitive k")
      case True
      with 2 Some show ?thesis
        by (cases p) (auto simp: map_of_redact_entries REDACTED_def)
    next
      case False
      with 2 Some show ?thesis
        by (auto simp: map_of_redact_entries)
    qed
  qed
next
  case (3 xs i p)
  then show ?case by (auto split: if_splits)
qed auto

text \<open>
  C1. For a key \<open>K\<close> whose lower-cased name is in the Sensitive-Key Set: wherever the
  input holds a value \<open>v\<close> under \<open>K\<close> (at the top or below keys that are not sensitive and
  list positions), the redacted structure holds the sentinel \<^verbatim>\<open>"<redacted>"\<close> there,
  whatever \<open>v\<close> is, so nothing of \<open>v\<close> is visited or kept; and every value that the
  redacted structure holds under \<open>K\<close>, at any depth, is the sentinel.
\<close>

theorem redact_sensitive_key:
  "is_sensitive K \<Longrightarrow>
     (list_all plain_step p \<and> at_path V (p @ [Key K]) = Some v
        \<longrightarrow> at_path (redact V) (p @ [Key K]) = Some REDACTED) \<and>
     (at_path (redact V) (q @ [Key K]) = Some w \<longrightarrow> w = REDACTED)"
proof (intro conjI impI)
  assume s: "is_sensitive K"
  { assume h: "list_all plain_step p \<and> at_path V (p @ [Key K]) = Some v"
    then obtain kvs where a: "at_path V p = Some (JObject kvs)" and m: "map_of kvs K = Some v"
      by (auto simp: at_path_snoc_key)
    from h a have "at_path (redact V) p = Some (redact (JObject kvs))"
      by (simp add: at_path_redact_plain)
    with m s show "at_path (redact V) (p @ [Key K]) = Some REDACTED"
      by (simp add: at_path_snoc_key map_of_redact_entries) }
  { assume "at_path (redact V) (q @ [Key K]) = Some w"
    then obtain kvs where b: "at_path (redact V) q = Some (JObject kvs)"
        and c: "map_of kvs K = Some w"
      by (auto simp: at_path_snoc_key)
    show "w = REDACTED" by (rule sensitive_entry_of_redact [OF b c s]) }
qed

theorem redact_sensitive_key_witness:
  "is_sensitive ''Token'' \<and>
   list_all plain_step [Key ''list'', Index 0] \<and>
   at_path (JObject [(''list'', JArray [JObject [(''Token'', JObject [(''inner'', JString ''x'')])]])])
       ([Key ''list'', Index 0] @ [Key ''Token''])
     = Some (JObject [(''inner'', JString ''x'')]) \<and>
   at_path (redact (JObject [(''list'', JArray [JObject [(''Token'', JObject [(''inner'', JString ''x'')])]])]))
       ([Key ''list'', Index 0] @ [Key ''Token''])
     = Some REDACTED"
proof -
  have s: "is_sensitive ''Token''" by code_simp
  have h: "list_all plain_step [Key ''list'', Index 0] \<and>
      at_path (JObject [(''list'', JArray [JObject [(''Token'', JObject [(''inner'', JString ''x'')])]])])
          ([Key ''list'', Index 0] @ [Key ''Token''])
        = Some (JObject [(''inner'', JString ''x'')])"
    by code_simp
  from redact_sensitive_key [OF s, of "[Key ''list'', Index 0]"
      "JObject [(''list'', JArray [JObject [(''Token'', JObject [(''inner'', JString ''x'')])]])]"
      "JObject [(''inner'', JString ''x'')]"] h s
  show ?thesis by blast
qed

text \<open>
  C2, as the spec states it, fails: the value under a key that is not sensitive is not
  kept unchanged when a sensitive key occurs inside it. The value under \<^verbatim>\<open>"a"\<close> in
  \<^verbatim>\<open>{"a": {"token": "x"}}\<close> becomes \<^verbatim>\<open>{"token": "<redacted>"}\<close>.
\<close>

theorem redact_plain_value_counterexample:
  "\<not> is_sensitive ''a'' \<and>
   at_path (redact (JObject [(''a'', JObject [(''token'', JString ''x'')])])) [Key ''a'']
     \<noteq> at_path (JObject [(''a'', JObject [(''token'', JString ''x'')])]) [Key ''a'']"
  by code_simp

text \<open>
  C2, amended. Along a path of keys that are not sensitive and of list positions, at
  every depth, the redacted structure holds the redaction of the value the input holds
  there; that value is unchanged when no sensitive key occurs inside it (so every
  string, number, boolean and null is unchanged); and a sequence is redacted element by
  element, keeping its order and length.
\<close>

theorem redact_keeps_plain_paths:
  "list_all plain_step p \<Longrightarrow> at_path V p = Some v \<Longrightarrow>
     at_path (redact V) p = Some (redact v) \<and>
     (sensitive_free v \<longrightarrow> redact v = v) \<and>
     (\<forall>xs. v = JArray xs \<longrightarrow> redact v = JArray (map redact xs) \<and>
        length (map redact xs) = length xs)"
  by (simp add: at_path_redact_plain redact_sensitive_free)

theorem redact_keeps_plain_paths_witness:
  "list_all plain_step [Key ''list''] \<and>
   at_path (JObject [(''list'', JArray [JObject [(''ok'', JString ''b'')], JInt 2])]) [Key ''list'']
     = Some (JArray [JObject [(''ok'', JString ''b'')], JInt 2]) \<and>
   sensitive_free (JArray [JObject [(''ok'', JString ''b'')], JInt 2]) \<and>
   at_path (redact (JObject [(''list'', JArray [JObject [(''ok'', JString ''b'')], JInt 2])]))
       [Key ''list'']
     = Some (JArray [JObject [(''ok'', JString ''b'')], JInt 2])"
proof -
  have a: "list_all plain_step [Key ''list'']" by code_simp
  have b: "at_path (JObject [(''list'', JArray [JObject [(''ok'', JString ''b'')], JInt 2])])
      [Key ''list''] = Some (JArray [JObject [(''ok'', JString ''b'')], JInt 2])"
    by code_simp
  have c: "sensitive_free (JArray [JObject [(''ok'', JString ''b'')], JInt 2])" by code_simp
  from redact_keeps_plain_paths [OF a b] a b c show ?thesis by metis
qed

text \<open>
  C3. Redaction is idempotent: redacting a redacted value changes nothing.
\<close>

theorem redact_idempotent: "redact (redact V) = redact V"
  by (induction V rule: redact.induct) (auto simp: REDACTED_def)

section \<open>Properties of the validators\<close>

text \<open>
  C9. For a configuration dict in which the key \<^verbatim>\<open>mcpServers\<close> is absent, or present
  with a value that is not a dict, \<open>validate_mcp_config\<close> returns a list of exactly one
  issue, the one of the early return; no issue of a server is in it.
\<close>

theorem validate_mcp_config_early_return:
  "(map_of d ''mcpServers'' = None \<longrightarrow>
      validate_mcp_config (JObject d) = Inr [MissingMcpServers]) \<and>
   (map_of d ''mcpServers'' = Some servers \<and> \<not> is_dict servers \<longrightarrow>
      validate_mcp_config (JObject d) = Inr [McpServersNotObject])"
  by (cases servers) (auto simp: validate_mcp_config_def)

theorem validate_mcp_config_early_return_witness:
  "map_of [(''servers'', JObject [])] ''mcpServers'' = None \<and>
   validate_mcp_config (JObject [(''servers'', JObject [])]) = Inr [MissingMcpServers] \<and>
   map_of [(''mcpServers'', JArray [JObject [(''type'', JString ''bogus'')]])] ''mcpServers''
     = Some (JArray [JObject [(''type'', JString ''bogus'')]]) \<and>
   \<not> is_dict (JArray [JObject [(''type'', JString ''bogus'')]]) \<and>
   validate_mcp_config (JObject [(''mcpServers'', JArray [JObject [(''type'', JString ''bogus'')]])])
     = Inr [McpServersNotObject]"
proof -
  have a: "map_of [(''servers'', JObject [])] ''mcpServers'' = None" by simp
  have b: "map_of [(''mcpServers'', JArray [JObject [(''type'', JString ''bogus'')]])] ''mcpServers''
      = Some (JArray [JObject [(''type'', JString ''bogus'')]]) \<and>
    \<not> is_dict (JArray [JObject [(''type'', JString ''bogus'')]])" by simp
  from validate_mcp_config_early_return [of "[(''servers'', JObject [])]"] a
  have c: "validate_mcp_config (JObject [(''servers'', JObject [])]) = Inr [MissingMcpServers]"
    by blast
  from validate_mcp_config_early_return
    [of "[(''mcpServers'', JArray [JObject [(''type'', JString ''bogus'')]])]"
        "JArray [JObject [(''type'', JString ''bogus'')]]"] b
  have "validate_mcp_config (JObject [(''mcpServers'', JArray [JObject [(''type'', JString ''bogus'')]])])
      = Inr [McpServersNotObject]"
    by blast
  with a b c show ?thesis by blast
qed

text \<open>
  What holds of \<open>validate_claude_settings\<close> on a dict: with a key outside the known
  set, and a \<^verbatim>\<open>model\<close> that is absent or hashable, the issue list starts with the issue
  of the unknown keys; with known keys only and neither \<^verbatim>\<open>model\<close> nor
  \<^verbatim>\<open>statusLine\<close>, the list is empty.
\<close>

lemma validate_claude_settings_unknown_key:
  "k \<in> set (map fst d) \<Longrightarrow> k \<notin> valid_keys \<Longrightarrow>
   (\<forall>m. map_of d ''model'' = Some m \<longrightarrow> hashable m) \<Longrightarrow>
     \<exists>rest. validate_claude_settings (JObject d)
       = Inr (UnknownKeys (set (map fst d) - valid_keys) # rest)"
  by (auto simp: validate_claude_settings_def Let_def split: option.splits)

lemma validate_claude_settings_known_keys:
  "set (map fst d) \<subseteq> valid_keys \<Longrightarrow> map_of d ''model'' = None \<Longrightarrow>
   map_of d ''statusLine'' = None \<Longrightarrow>
     validate_claude_settings (JObject d) = Inr []"
  by (auto simp: validate_claude_settings_def Let_def)

text \<open>
  C10. The settings \<^verbatim>\<open>{"extra": 1, "model": ["opus"]}\<close> hold a key outside the known
  set, and \<open>validate_claude_settings\<close> returns no issue list: the membership test of the
  model in the set \<^verbatim>\<open>valid_models\<close> raises \<^verbatim>\<open>TypeError\<close> on the list.
\<close>

theorem validate_claude_settings_unhashable_model:
  "validate_claude_settings (JObject [(''extra'', JInt 1), (''model'', JArray [JString ''opus''])])
     = Inl (TypeError ''unhashable type: list'')"
  by (simp add: validate_claude_settings_def)

section \<open>Properties of the directory structure\<close>

lemma path_exists_kind: "path_exists fs p \<longleftrightarrow> kind_at fs p \<noteq> None"
  by (simp add: path_exists_def kind_at_def split: sum.splits)

lemma is_dir_kind: "is_dir fs p \<longleftrightarrow> kind_at fs p = Some Directory"
  by (auto simp: is_dir_def kind_at_def split: sum.splits node.splits)

lemma grows_refl: "grows fs fs"
  by (simp add: grows_def)

lemma grows_trans: "grows a b \<Longrightarrow> grows b c \<Longrightarrow> grows a c"
proof -
  assume ab: "grows a b" and bc: "grows b c"
  have "kind_at c q = kind_at a q \<or> (kind_at a q = None \<and> kind_at c q = Some Directory)" for q
    using ab [unfolded grows_def, rule_format, of q] bc [unfolded grows_def, rule_format, of q]
    by auto
  then show ?thesis by (simp add: grows_def)
qed

lemma map_of_set_entry:
  "map_of (set_entry entries c n) x =
     (if x = c then (case map_of entries c of None \<Rightarrow> None | Some m \<Rightarrow> Some n)
      else map_of entries x)"
  by (induction entries) (auto simp: set_entry_def)

lemma kind_at_Nil: "kind_at n [] = Some (kind_of n)"
  by (simp add: kind_at_def)

lemma kind_at_File_Cons: "kind_at File (c # cs) = None"
  by (simp add: kind_at_def)

lemma kind_at_Dir_Cons:
  "kind_at (Dir entries) (c # cs) =
     (case map_of entries c of None \<Rightarrow> None | Some n \<Rightarrow> kind_at n cs)"
  by (simp add: kind_at_def split: option.splits)

lemma os_mkdir_kind:
  "os_mkdir n p = Inr n' \<Longrightarrow>
     kind_of n' = kind_of n \<and>
     (kind_at n' q = kind_at n q \<or> (kind_at n q = None \<and> kind_at n' q = Some Directory))"
proof (induction n p arbitrary: n' q rule: os_mkdir.induct)
  case (1 n)
  then show ?case by simp
next
  case (2 c cs)
  then show ?case by simp
next
  case (3 entries c cs)
  show ?case
  proof (cases "map_of entries c")
    case None
    with 3 have n': "n' = Dir (entries @ [(c, Dir [])])" and cs: "cs = []"
      by (auto split: if_splits)
    show ?thesis
    proof (cases q)
      case Nil
      then show ?thesis by (simp add: n' kind_at_Nil)
    next
      case (Cons d ds)
      then show ?thesis
        using None
        by (cases ds) (auto simp: n' kind_at_Dir_Cons kind_at_Nil map_add_def split: option.splits)
    qed
  next
    case (Some m)
    with 3 obtain m' where m': "os_mkdir m cs = Inr m'" and n': "n' = Dir (set_entry entries c m')"
      by (auto split: sum.splits)
    show ?thesis
    proof (cases q)
      case Nil
      then show ?thesis by (simp add: n' kind_at_Nil)
    next
      case (Cons d ds)
      from "3.IH" [OF Some m', of ds] show ?thesis
        using Some by (auto simp: Cons n' kind_at_Dir_Cons map_of_set_entry)
    qed
  qed
qed

lemma os_mkdir_grows: "os_mkdir fs p = Inr fs' \<Longrightarrow> grows fs fs'"
  unfolding grows_def using os_mkdir_kind by blast

lemma os_mkdir_creates: "os_mkdir n p = Inr n' \<Longrightarrow> kind_at n' p = Some Directory"
proof (induction n p arbitrary: n' rule: os_mkdir.induct)
  case (3 entries c cs)
  show ?case
  proof (cases "map_of entries c")
    case None
    with 3 show ?thesis
      by (auto simp: kind_at_Dir_Cons kind_at_Nil map_add_def split: if_splits)
  next
    case (Some m)
    with 3 obtain m' where m': "os_mkdir m cs = Inr m'" and n': "n' = Dir (set_entry entries c m')"
      by (auto split: sum.splits)
    from "3.IH" [OF Some m'] show ?thesis
      using Some by (simp add: n' kind_at_Dir_Cons map_of_set_entry)
  qed
qed simp_all

lemma mkdir_exist_ok_ok:
  "mkdir_exist_ok fs p = (fs', None) \<Longrightarrow> grows fs fs' \<and> kind_at fs' p = Some Directory"
  by (auto simp: mkdir_exist_ok_def is_dir_kind grows_refl os_mkdir_grows os_mkdir_creates
      split: sum.splits os_error.splits if_splits)

lemma path_mkdir_ok:
  "path_mkdir fs p = (fs', None) \<Longrightarrow> grows fs fs' \<and> kind_at fs' p = Some Directory"
proof (induction fs p arbitrary: fs' rule: path_mkdir.induct)
  case (1 fs p)
  note prem = "1.prems" [unfolded path_mkdir.simps [of fs p]]
  show ?case
  proof (cases "os_mkdir fs p")
    case (Inr a)
    with prem show ?thesis
      by (simp add: os_mkdir_grows os_mkdir_creates)
  next
    case (Inl e)
    show ?thesis
    proof (cases "e = FileNotFoundError")
      case False
      with Inl prem show ?thesis
        by (cases e) (auto simp: is_dir_kind grows_refl split: if_splits)
    next
      case True
      with Inl prem have p: "p \<noteq> []" by (auto split: if_splits)
      from True Inl prem p obtain fs1 where
        a: "path_mkdir fs (butlast p) = (fs1, None)" and b: "mkdir_exist_ok fs1 p = (fs', None)"
        by (auto split: prod.splits option.splits)
      from "1.IH" [OF Inl True p a] mkdir_exist_ok_ok [OF b] show ?thesis
        by (auto intro: grows_trans)
    qed
  qed
qed

lemma grows_exists: "grows fs fs' \<Longrightarrow> path_exists fs q \<Longrightarrow> path_exists fs' q"
proof -
  assume g: "grows fs fs'" and e: "path_exists fs q"
  from g have "kind_at fs' q = kind_at fs q \<or> (kind_at fs q = None \<and> kind_at fs' q = Some Directory)"
    by (simp add: grows_def)
  with e show ?thesis by (auto simp: path_exists_kind)
qed

lemma create_dirs_ok:
  "create_dirs ds fs out = (fs', out', None) \<Longrightarrow>
     grows fs fs' \<and> (\<forall>d \<in> set ds. path_exists fs' d)"
proof (induction ds arbitrary: fs out)
  case Nil
  then show ?case by (simp add: grows_refl)
next
  case (Cons d ds)
  show ?case
  proof (cases "path_exists fs d")
    case True
    with Cons.prems have "create_dirs ds fs (out @ [AlreadyExists d]) = (fs', out', None)"
      by simp
    from Cons.IH [OF this] True show ?thesis
      by (auto intro: grows_exists)
  next
    case False
    with Cons.prems obtain fs1 where
      a: "path_mkdir fs d = (fs1, None)" and
      b: "create_dirs ds fs1 (out @ [Created d]) = (fs', out', None)"
      by (auto split: prod.splits option.splits)
    from path_mkdir_ok [OF a] have g: "grows fs fs1" and k: "path_exists fs1 d"
      by (auto simp: path_exists_kind)
    from Cons.IH [OF b] g k show ?thesis
      by (auto intro: grows_trans grows_exists)
  qed
qed

lemma create_dirs_all_exist:
  "\<forall>d \<in> set ds. path_exists fs d \<Longrightarrow>
     create_dirs ds fs out = (fs, out @ map AlreadyExists ds, None)"
  by (induction ds arbitrary: out) auto

lemma stat_append:
  "stat n (a @ b) = (case stat n a of Inl e \<Rightarrow> Inl e | Inr m \<Rightarrow> stat m b)"
  by (induction n a rule: stat.induct) (auto split: option.splits)

lemma stat_File: "stat File b = Inr m \<Longrightarrow> b = []"
  by (cases b) auto

lemma exists_parents: "path_exists fs p \<Longrightarrow> i < length p \<Longrightarrow> is_dir fs (take i p)"
proof -
  assume e: "path_exists fs p" and i: "i < length p"
  from i have d: "drop i p \<noteq> []" by simp
  from e obtain m where m: "stat fs p = Inr m"
    by (auto simp: path_exists_def split: sum.splits)
  have "stat fs (take i p @ drop i p) =
      (case stat fs (take i p) of Inl e \<Rightarrow> Inl e | Inr m \<Rightarrow> stat m (drop i p))"
    by (rule stat_append)
  with m have c: "(case stat fs (take i p) of Inl e \<Rightarrow> Inl e | Inr m \<Rightarrow> stat m (drop i p)) = Inr m"
    by simp
  show ?thesis
  proof (cases "stat fs (take i p)")
    case (Inl e)
    with c show ?thesis by simp
  next
    case (Inr k)
    with c have "stat k (drop i p) = Inr m" by simp
    with d have "k \<noteq> File" by (auto dest: stat_File)
    with Inr show ?thesis by (cases k) (auto simp: is_dir_def)
  qed
qed

text \<open>
  C7. Creating the directories is idempotent. When a run of
  \<open>create_directory_structure\<close> returns without an exception, every directory of the
  list exists afterwards, one that was missing is a directory, and its parents are
  directories; a second run on the resulting file system returns without an exception,
  leaves the file system as it is and reports every directory as already existing, so
  it creates nothing again.
\<close>

theorem create_directory_structure_idempotent:
  "create_directory_structure fs = (fs', out, None) \<Longrightarrow>
     (\<forall>d \<in> set directories.
        path_exists fs' d \<and>
        (\<not> path_exists fs d \<longrightarrow> is_dir fs' d) \<and>
        (\<forall>i < length d. is_dir fs' (take i d))) \<and>
     create_directory_structure fs' =
       (fs', [Creating] @ map AlreadyExists directories @ [Blank], None)"
proof -
  assume a: "create_directory_structure fs = (fs', out, None)"
  then obtain out1 where r: "create_dirs directories fs [Creating] = (fs', out1, None)"
    by (auto simp: create_directory_structure_def split: prod.splits option.splits)
  from create_dirs_ok [OF r] have g: "grows fs fs'"
    and e: "\<forall>d \<in> set directories. path_exists fs' d" by auto
  have n: "\<not> path_exists fs d \<longrightarrow> is_dir fs' d" if "d \<in> set directories" for d
  proof
    assume "\<not> path_exists fs d"
    then have "kind_at fs d = None" by (simp add: path_exists_kind)
    moreover from e that have "kind_at fs' d \<noteq> None" by (simp add: path_exists_kind)
    moreover from g have "kind_at fs' d = kind_at fs d \<or>
        (kind_at fs d = None \<and> kind_at fs' d = Some Directory)"
      by (simp add: grows_def)
    ultimately show "is_dir fs' d" by (auto simp: is_dir_kind)
  qed
  have s: "create_directory_structure fs' =
       (fs', [Creating] @ map AlreadyExists directories @ [Blank], None)"
    by (simp add: create_directory_structure_def create_dirs_all_exist [OF e])
  have "path_exists fs' d \<and> (\<not> path_exists fs d \<longrightarrow> is_dir fs' d) \<and>
        (\<forall>i < length d. is_dir fs' (take i d))" if "d \<in> set directories" for d
    using e n that exists_parents [of fs' d] by simp
  with s show ?thesis by simp
qed

theorem create_directory_structure_idempotent_witness:
  "create_directory_structure (Dir [(''.claude'', Dir [(''cache'', Dir [])])]) =
     (Dir [(''.claude'',
        Dir [(''cache'', Dir []), (''hooks'', Dir [(''logs'', Dir [])]), (''tmp'', Dir []),
             (''agents'', Dir []), (''commands'', Dir [])])],
      [Creating, Created [''.claude'', ''hooks'', ''logs''],
       AlreadyExists [''.claude'', ''cache''], Created [''.claude'', ''tmp''],
       Created [''.claude'', ''agents''], Created [''.claude'', ''commands''], Blank],
      None) \<and>
   create_directory_structure
     (Dir [(''.claude'',
        Dir [(''cache'', Dir []), (''hooks'', Dir [(''logs'', Dir [])]), (''tmp'', Dir []),
             (''agents'', Dir []), (''commands'', Dir [])])]) =
     (Dir [(''.claude'',
        Dir [(''cache'', Dir []), (''hooks'', Dir [(''logs'', Dir [])]), (''tmp'', Dir []),
             (''agents'', Dir []), (''commands'', Dir [])])],
      [Creating] @ map AlreadyExists directories @ [Blank], None)"
proof -
  have h: "create_directory_structure (Dir [(''.claude'', Dir [(''cache'', Dir [])])]) =
     (Dir [(''.claude'',
        Dir [(''cache'', Dir []), (''hooks'', Dir [(''logs'', Dir [])]), (''tmp'', Dir []),
             (''agents'', Dir []), (''commands'', Dir [])])],
      [Creating, Created [''.claude'', ''hooks'', ''logs''],
       AlreadyExists [''.claude'', ''cache''], Created [''.claude'', ''tmp''],
       Created [''.claude'', ''agents''], Created [''.claude'', ''commands''], Blank],
      None)"
    by code_simp
  from create_directory_structure_idempotent [OF h] h show ?thesis by blast
qed

section \<open>Properties of the JSON scanner\<close>

lemma scanstring_consumes:
  "scanstring b acc s = Inr (str, rest) \<Longrightarrow> length rest < length s"
proof (induction b acc s arbitrary: str rest rule: scanstring.induct)
  case (1 b acc)
  then show ?case by simp
next
  case (2 b acc c cs)
  then show ?case
    apply (auto simp: Let_def split: if_splits list.splits option.splits)
    apply force+
    done
qed

lemma scan_sign_rest: "scan_sign s = (sign, s1) \<Longrightarrow> length s1 \<le> length s"
  by (auto simp: scan_sign_def split: list.splits if_splits)

lemma scan_int_rest: "scan_int s = Some (ds, s2) \<Longrightarrow> length s2 < length s"
  by (auto simp: scan_int_def less_Suc_eq_le length_dropWhile_le split: list.splits if_splits)

lemma scan_frac_rest: "scan_frac s = (frac, s3) \<Longrightarrow> length s3 \<le> length s"
  by (auto simp: scan_frac_def split: list.splits if_splits
      intro: le_trans [OF length_dropWhile_le])

lemma scan_exp_rest: "scan_exp s = (ex, s4) \<Longrightarrow> length s4 \<le> length s"
  by (auto simp: scan_exp_def split: list.splits if_splits prod.splits
      intro: le_trans [OF length_dropWhile_le])

lemma match_number_consumes:
  "match_number s = Some (v, rest) \<Longrightarrow> length rest < length s"
proof -
  assume a: "match_number s = Some (v, rest)"
  obtain sign s1 where 1: "scan_sign s = (sign, s1)" by (cases "scan_sign s")
  with a obtain ds s2 where 2: "scan_int s1 = Some (ds, s2)"
    by (auto simp: match_number_def split: option.splits)
  obtain frac s3 where 3: "scan_frac s2 = (frac, s3)" by (cases "scan_frac s2")
  obtain ex s4 where 4: "scan_exp s3 = (ex, s4)" by (cases "scan_exp s3")
  from a 1 2 3 4 have "rest = s4"
    by (auto simp: match_number_def split: if_splits)
  with scan_sign_rest [OF 1] scan_int_rest [OF 2] scan_frac_rest [OF 3] scan_exp_rest [OF 4]
  show ?thesis by simp
qed


lemma skip_ws_le: "length (skip_ws s) \<le> length s"
  by (simp add: skip_ws_def length_dropWhile_le)

lemma skip_ws_Cons_le: "skip_ws s = c # r \<Longrightarrow> Suc (length r) \<le> length s"
  using skip_ws_le [of s] by simp

lemma scan_consumes:
  "scan_once d s = Inr (v, rest) \<Longrightarrow> length rest < length s"
  "parse_object d2 ps s2 = Inr (v2, rest2) \<Longrightarrow> length rest2 < length s2"
  "parse_array d3 acc s3 = Inr (v3, rest3) \<Longrightarrow> length rest3 < length s3"
proof (induction d s and d2 ps s2 and d3 acc s3 arbitrary: v rest and v2 rest2 and v3 rest3
    rule: scan_once_parse_object_parse_array.induct)
  case (1 depth s)
  note prem = "1.prems" [unfolded scan_once.simps [of depth s]]
  show ?case
  proof (cases s)
    case Nil
    with prem show ?thesis by simp
  next
    case (Cons c cs)
    consider (str) "c = CHR 0x22" | (obj) "c \<noteq> CHR 0x22" "c = CHR ''{''"
      | (arr) "c \<noteq> CHR 0x22" "c \<noteq> CHR ''{''" "c = CHR ''[''"
      | (other) "c \<noteq> CHR 0x22" "c \<noteq> CHR ''{''" "c \<noteq> CHR ''[''"
      by blast
    then show ?thesis
    proof cases
      case str
      with prem Cons show ?thesis
        by (auto split: sum.splits dest!: scanstring_consumes)
    next
      case obj
      with prem Cons have d: "depth \<noteq> 0" by (auto split: if_splits)
      show ?thesis
      proof (cases "skip_ws cs")
        case Nil
        with prem Cons obj d have "parse_object depth [] [] = Inr (v, rest)" by simp
        from "1.IH"(1) [OF Cons obj(1) obj(2) d Nil this] show ?thesis by simp
      next
        case (Cons c1 r1)
        note sk = this
        show ?thesis
        proof (cases "c1 = CHR ''}''")
          case True
          with prem \<open>s = c # cs\<close> obj d sk skip_ws_Cons_le [OF sk] show ?thesis by auto
        next
          case False
          with prem \<open>s = c # cs\<close> obj d sk
          have "parse_object depth [] (c1 # r1) = Inr (v, rest)"
            by simp
          from "1.IH"(2) [OF \<open>s = c # cs\<close> obj(1) obj(2) d sk False this]
            skip_ws_Cons_le [OF sk]
          show ?thesis using \<open>s = c # cs\<close> by simp
        qed
      qed
    next
      case arr
      with prem Cons have d: "depth \<noteq> 0" by (auto split: if_splits)
      show ?thesis
      proof (cases "skip_ws cs")
        case Nil
        with prem Cons arr d have "parse_array depth [] [] = Inr (v, rest)" by simp
        from "1.IH"(3) [OF Cons arr(1) arr(2) arr(3) d Nil this] show ?thesis by simp
      next
        case (Cons c1 r1)
        note sk = this
        show ?thesis
        proof (cases "c1 = CHR '']''")
          case True
          with prem \<open>s = c # cs\<close> arr d sk skip_ws_Cons_le [OF sk] show ?thesis by auto
        next
          case False
          with prem \<open>s = c # cs\<close> arr d sk
          have "parse_array depth [] (c1 # r1) = Inr (v, rest)"
            by simp
          from "1.IH"(4) [OF \<open>s = c # cs\<close> arr(1) arr(2) arr(3) d sk False this]
            skip_ws_Cons_le [OF sk]
          show ?thesis using \<open>s = c # cs\<close> by simp
        qed
      qed
    next
      case other
      with prem Cons have
        "(if take 4 s = ''null'' then Inr (JNull, drop 4 s)
          else if take 4 s = ''true'' then Inr (JBool True, drop 4 s)
          else if take 5 s = ''false'' then Inr (JBool False, drop 5 s)
          else if take 3 s = ''NaN'' then Inr (JFloat ''NaN'', drop 3 s)
          else if take 8 s = ''Infinity'' then Inr (JFloat ''Infinity'', drop 8 s)
          else if take 9 s = ''-Infinity'' then Inr (JFloat ''-Infinity'', drop 9 s)
          else (case match_number s of None \<Rightarrow> Inl (expecting_value s) | Some r \<Rightarrow> Inr r))
         = Inr (v, rest)"
        by simp
      then show ?thesis using Cons
        by (auto split: if_splits option.splits dest: match_number_consumes)
    qed
  qed
next
  case (2 pairs s)
  then show ?case by simp
next
  case (3 depth pairs s)
  show ?case
  proof (cases s)
    case Nil
    with "3.prems" show ?thesis by simp
  next
    case (Cons c cs)
    with "3.prems" obtain key s1 c2 s3 val s5 c6 s7 where
      q: "c = CHR 0x22" and
      k: "scanstring (length s) [] cs = Inr (key, s1)" and
      w1: "skip_ws s1 = c2 # s3" and c2: "c2 = CHR '':''" and
      sc: "scan_once depth (skip_ws s3) = Inr (val, s5)" and
      w2: "skip_ws s5 = c6 # s7"
      by (auto split: if_splits sum.splits list.splits)
    from scanstring_consumes [OF k] have l1: "length s1 < length cs" .
    from skip_ws_Cons_le [OF w1] have l2: "Suc (length s3) \<le> length s1" .
    have c2': "\<not> c2 \<noteq> CHR '':''" using c2 by simp
    have q': "\<not> c \<noteq> CHR 0x22" using q by simp
    from "3.IH"(1) [OF Cons q' k refl w1 c2' sc] have l3: "length s5 < length (skip_ws s3)" .
    from skip_ws_Cons_le [OF w2] have l4: "Suc (length s7) \<le> length s5" .
    from l1 l2 l3 l4 skip_ws_le [of s3] have l5: "length s7 < length cs" by simp
    show ?thesis
    proof (cases "c6 = CHR ''}''")
      case True
      with "3.prems" Cons q k w1 c2 sc w2 l5 show ?thesis by auto
    next
      case False
      note nc = this
      show ?thesis
      proof (cases "c6 = CHR '',''")
        case False
        with "3.prems" Cons q k w1 c2 sc w2 nc show ?thesis by auto
      next
        case True
        have g: "length (skip_ws s7) < length s"
          using l5 skip_ws_le [of s7] Cons by simp
        with "3.prems" Cons q k w1 c2 sc w2 nc True
        have r: "parse_object (Suc depth) (dict_set pairs key val) (skip_ws s7) = Inr (v2, rest2)"
          by auto
        have c6': "\<not> c6 \<noteq> CHR '',''" using True by simp
        from "3.IH"(2) [OF Cons q' k refl w1 c2' sc refl w2 nc c6' g r] g
        show ?thesis by simp
      qed
    qed
  qed
next
  case (4 acc s)
  then show ?case by simp
next
  case (5 depth acc s)
  from "5.prems" obtain val s1 c s2 where
    sc: "scan_once depth s = Inr (val, s1)" and w: "skip_ws s1 = c # s2"
    by (auto split: sum.splits list.splits)
  from "5.IH"(1) [OF sc] have l1: "length s1 < length s" .
  from skip_ws_Cons_le [OF w] have l2: "Suc (length s2) \<le> length s1" .
  show ?case
  proof (cases "c = CHR '']''")
    case True
    with "5.prems" sc w l1 l2 show ?thesis by auto
  next
    case False
    note nc = this
    show ?thesis
    proof (cases "c = CHR '',''")
      case False
      with "5.prems" sc w nc show ?thesis by auto
    next
      case True
      have g: "length (skip_ws s2) < length s"
        using l1 l2 skip_ws_le [of s2] by simp
      with "5.prems" sc w nc True
      have r: "parse_array (Suc depth) (acc @ [val]) (skip_ws s2) = Inr (v3, rest3)"
        by auto
      have c': "\<not> c \<noteq> CHR '',''" using True by simp
      from "5.IH"(2) [OF sc refl w nc c' g r] g show ?thesis by simp
    qed
  qed
qed

text \<open>
  The tests on the lengths in \<open>parse_object\<close> and \<open>parse_array\<close> hold whenever they
  are reached, so the branch after them is never taken.
\<close>

lemma parse_array_progress:
  "scan_once depth s = Inr (val, s1) \<Longrightarrow> skip_ws s1 = c # s2 \<Longrightarrow>
     length (skip_ws s2) < length s"
  using scan_consumes(1) [of depth s val s1] skip_ws_Cons_le [of s1 c s2] skip_ws_le [of s2]
  by simp

lemma parse_object_progress:
  "scanstring b [] cs = Inr (key, s1) \<Longrightarrow> skip_ws s1 = c2 # s3 \<Longrightarrow>
   scan_once depth (skip_ws s3) = Inr (val, s5) \<Longrightarrow> skip_ws s5 = c6 # s7 \<Longrightarrow>
     length (skip_ws s7) < length (c # cs)"
  using scanstring_consumes [of b "[]" cs key s1] skip_ws_Cons_le [of s1 c2 s3]
    scan_consumes(1) [of depth "skip_ws s3" val s5] skip_ws_le [of s3]
    skip_ws_Cons_le [of s5 c6 s7] skip_ws_le [of s7]
  by simp

section \<open>Properties of \<^verbatim>\<open>validate_json_file\<close> and \<^verbatim>\<open>main\<close>\<close>

lemma scan_once_empty: "scan_once depth [] = Inl (Decode ''Expecting value'' 0)"
  by (simp add: scan_once.simps expecting_value_def)

lemma decode_error_start:
  "decode_error msg [] 0 = msg @ '': line 1 column 1 (char 0)''"
  by (simp add: decode_error_def show_nat.simps)

lemma json_loads_empty:
  "json_loads limit [] = Inl (JSONDecodeError ''Expecting value: line 1 column 1 (char 0)'')"
  by (simp add: json_loads_def skip_ws_def scan_once_empty decode_error_start)

text \<open>
  C6. Empty input is a JSON parse failure: \<^verbatim>\<open>json.loads\<close> raises \<^verbatim>\<open>JSONDecodeError\<close>
  on the empty document, and on a file that is empty \<open>validate_json_file\<close> takes the
  branch of that exception and returns an invalid result with the parse error.
\<close>

theorem empty_input_is_parse_failure:
  "map_of (files w) file_path = Some (Content []) \<Longrightarrow>
     json_loads (recursion_limit w) [] =
       Inl (JSONDecodeError ''Expecting value: line 1 column 1 (char 0)'') \<and>
     validate_json_file w file_path =
       [(''valid'', JBool False),
        (''error'', JString ''JSON parse error: Expecting value: line 1 column 1 (char 0)'')]"
  by (simp add: validate_json_file_def json_loads_empty)

theorem empty_input_is_parse_failure_witness:
  "map_of (files \<lparr>files = [(''.mcp.json'', Content [])], existing = [], recursion_limit = 100\<rparr>)
     ''.mcp.json'' = Some (Content []) \<and>
   validate_json_file \<lparr>files = [(''.mcp.json'', Content [])], existing = [], recursion_limit = 100\<rparr>
     ''.mcp.json'' =
       [(''valid'', JBool False),
        (''error'', JString ''JSON parse error: Expecting value: line 1 column 1 (char 0)'')]"
proof -
  have h: "map_of (files \<lparr>files = [(''.mcp.json'', Content [])], existing = [],
      recursion_limit = 100\<rparr>) ''.mcp.json'' = Some (Content [])"
    by simp
  from empty_input_is_parse_failure [OF h] h show ?thesis by blast
qed



lemma report_file_parse_failure:
  "map_of (files w) file_path = Some (Content s) \<Longrightarrow>
   json_loads (recursion_limit w) s = Inl e \<Longrightarrow>
     \<exists>ls. report_file name validate (validate_json_file w file_path) = Inr (ls, True)"
  by (cases e) (auto simp: report_file_def validate_json_file_def)






end
